theory Spec2Isabelle
  imports Main
begin

section \<open>Scores: Python integers together with the two float infinities\<close>

text \<open>
  \<^verbatim>\<open>evaluate_board\<close> returns a Python \<^verbatim>\<open>int\<close>; the bounds \<^verbatim>\<open>alpha\<close>, \<^verbatim>\<open>beta\<close> and
  the running \<^verbatim>\<open>max_eval\<close>/\<^verbatim>\<open>min_eval\<close> start from \<^verbatim>\<open>-inf\<close> and \<^verbatim>\<open>inf\<close> of the
  \<^verbatim>\<open>math\<close> module. Python compares an \<^verbatim>\<open>int\<close> with a float infinity exactly, so
  the values that flow through the search are the integers extended by a least and
  a greatest element.
\<close>

datatype score = NegInf | Fin int | PosInf

instantiation score :: linorder
begin

fun less_eq_score :: "score \<Rightarrow> score \<Rightarrow> bool" where
  "less_eq_score NegInf y = True"
| "less_eq_score (Fin a) NegInf = False"
| "less_eq_score (Fin a) (Fin b) = (a \<le> b)"
| "less_eq_score (Fin a) PosInf = True"
| "less_eq_score PosInf PosInf = True"
| "less_eq_score PosInf y = False"

definition less_score :: "score \<Rightarrow> score \<Rightarrow> bool" where
  "less_score x y = (x \<le> y \<and> \<not> y \<le> x)"

instance
proof
  fix x y z :: score
  show "(x < y) = (x \<le> y \<and> \<not> y \<le> x)"
    by (simp add: less_score_def)
  show "x \<le> x"
    by (cases x) simp_all
  show "x \<le> y \<Longrightarrow> y \<le> z \<Longrightarrow> x \<le> z"
    by (cases x; cases y; cases z) simp_all
  show "x \<le> y \<Longrightarrow> y \<le> x \<Longrightarrow> x = y"
    by (cases x; cases y) simp_all
  show "x \<le> y \<or> y \<le> x"
    by (cases x; cases y) auto
qed

end

section \<open>The Rules Engine (python-chess) as a parameter\<close>

text \<open>
  The program imports the \<^verbatim>\<open>chess\<close> package and calls its \<^verbatim>\<open>Board\<close>; the package
  is not part of the repository. Its operations that the program uses are the
  fields of a record, over any type \<^typ>\<open>'p\<close> of boards and \<^typ>\<open>'m\<close> of moves.
  \<^verbatim>\<open>chess.WHITE\<close> is \<^verbatim>\<open>True\<close> and \<^verbatim>\<open>chess.BLACK\<close> is \<^verbatim>\<open>False\<close>.
\<close>

definition WHITE :: bool where "WHITE = True"
definition BLACK :: bool where "BLACK = False"

datatype piece_type = PAWN | KNIGHT | BISHOP | ROOK | QUEEN | KING

record piece =
  piece_type :: piece_type
  color :: bool

record ('p, 'm) rules_engine =
  legal_moves :: "'p \<Rightarrow> 'm list"
  push :: "'p \<Rightarrow> 'm \<Rightarrow> 'p"
  pop :: "'p \<Rightarrow> 'p"
  is_game_over :: "'p \<Rightarrow> bool"
  is_checkmate :: "'p \<Rightarrow> bool"
  is_stalemate :: "'p \<Rightarrow> bool"
  turn :: "'p \<Rightarrow> bool"
  piece_at :: "'p \<Rightarrow> nat \<Rightarrow> piece option"

section \<open>The evaluator\<close>

text \<open>The dictionary \<^verbatim>\<open>piece_values\<close> of \<^verbatim>\<open>evaluate_board\<close>; it has a key for each piece type.\<close>

fun piece_values :: "piece_type \<Rightarrow> int" where
  "piece_values PAWN = 1"
| "piece_values KNIGHT = 3"
| "piece_values BISHOP = 3"
| "piece_values ROOK = 5"
| "piece_values QUEEN = 9"
| "piece_values KING = 0"

text \<open>\<^verbatim>\<open>chess.SQUARES\<close> is \<^verbatim>\<open>range(64)\<close>.\<close>

definition SQUARES :: "nat list" where
  "SQUARES = [0..<64]"

text \<open>The body of the loop over the squares: the score after looking at one square.\<close>

definition add_square :: "('p, 'm) rules_engine \<Rightarrow> 'p \<Rightarrow> nat \<Rightarrow> int \<Rightarrow> int" where
  "add_square R b square score =
     (case piece_at R b square of
        None \<Rightarrow> score
      | Some piece \<Rightarrow>
          (let v = piece_values (piece_type piece)
           in score + (if color piece = WHITE then v else - v)))"

definition evaluate_board :: "('p, 'm) rules_engine \<Rightarrow> 'p \<Rightarrow> int" where
  "evaluate_board R b =
     (if is_checkmate R b then (if turn R b then - 1000 else 1000)
      else if is_stalemate R b then 0
      else fold (add_square R b) SQUARES 0)"

section \<open>The search\<close>

text \<open>
  \<^verbatim>\<open>minimax\<close> mutates \<^verbatim>\<open>self.board\<close> with \<^verbatim>\<open>push\<close> and \<^verbatim>\<open>pop\<close>, so the model takes
  the board and returns, with the pair \<^verbatim>\<open>(score, best_move)\<close>, the board the call
  leaves behind. The two \<^verbatim>\<open>for\<close> loops are \<open>max_loop\<close> and \<open>min_loop\<close>: their
  arguments are the moves still to try and the variables the loop updates
  (\<^verbatim>\<open>alpha\<close> or \<^verbatim>\<open>beta\<close>, \<^verbatim>\<open>max_eval\<close> or \<^verbatim>\<open>min_eval\<close>, \<^verbatim>\<open>best_move\<close>, the board);
  \<open>d\<close> is the \<^verbatim>\<open>depth - 1\<close> of the recursive call. \<^verbatim>\<open>depth\<close> is a natural number:
  the program calls \<^verbatim>\<open>minimax(depth=3)\<close> and every recursive call counts down by one
  to the test \<^verbatim>\<open>depth == 0\<close>.
\<close>

type_synonym ('p, 'm) search_result = "(score \<times> 'm option) \<times> 'p"

function (sequential) minimax :: "('p, 'm) rules_engine \<Rightarrow> 'p \<Rightarrow> nat \<Rightarrow> score \<Rightarrow> score \<Rightarrow> bool \<Rightarrow> ('p, 'm) search_result"
and max_loop :: "('p, 'm) rules_engine \<Rightarrow> nat \<Rightarrow> score \<Rightarrow> 'm list \<Rightarrow> 'p \<Rightarrow> score \<Rightarrow> score \<Rightarrow> 'm option \<Rightarrow> ('p, 'm) search_result"
and min_loop :: "('p, 'm) rules_engine \<Rightarrow> nat \<Rightarrow> score \<Rightarrow> 'm list \<Rightarrow> 'p \<Rightarrow> score \<Rightarrow> score \<Rightarrow> 'm option \<Rightarrow> ('p, 'm) search_result"
where
  "minimax R b depth alpha beta is_maximizing =
     (if depth = 0 \<or> is_game_over R b then ((Fin (evaluate_board R b), None), b)
      else if is_maximizing
        then max_loop R (depth - 1) beta (legal_moves R b) b alpha NegInf None
        else min_loop R (depth - 1) alpha (legal_moves R b) b beta PosInf None)"
| "max_loop R d beta [] b alpha max_eval best_move = ((max_eval, best_move), b)"
| "max_loop R d beta (move # rest) b alpha max_eval best_move =
     (case minimax R (push R b move) d alpha beta False of
        ((eval_score, _), b') \<Rightarrow>
          (let b'' = pop R b';
               max_eval' = (if eval_score > max_eval then eval_score else max_eval);
               best_move' = (if eval_score > max_eval then Some move else best_move);
               alpha' = max alpha eval_score
           in if beta \<le> alpha' then ((max_eval', best_move'), b'')
              else max_loop R d beta rest b'' alpha' max_eval' best_move'))"
| "min_loop R d alpha [] b beta min_eval best_move = ((min_eval, best_move), b)"
| "min_loop R d alpha (move # rest) b beta min_eval best_move =
     (case minimax R (push R b move) d alpha beta True of
        ((eval_score, _), b') \<Rightarrow>
          (let b'' = pop R b';
               min_eval' = (if eval_score < min_eval then eval_score else min_eval);
               best_move' = (if eval_score < min_eval then Some move else best_move);
               beta' = min beta eval_score
           in if beta' \<le> alpha then ((min_eval', best_move'), b'')
              else min_loop R d alpha rest b'' beta' min_eval' best_move'))"
  by pat_completeness auto

termination
  by (relation "inv_image (less_than <*lex*> less_than)
        (\<lambda>x. case x of
           Inl (R, b, depth, rest) \<Rightarrow> (depth, 0)
         | Inr (Inl (R, d, beta, ms, rest)) \<Rightarrow> (d, Suc (length ms))
         | Inr (Inr (R, d, alpha, ms, rest)) \<Rightarrow> (d, Suc (length ms)))")
     auto

declare minimax.simps [simp del]

section \<open>The computer's turn in the game loop\<close>

text \<open>
  \<^verbatim>\<open>play_game\<close> lets the computer move when \<^verbatim>\<open>is_ai_turn\<close> holds: in mode
  \<^verbatim>\<open>'hvr'\<close> it calls \<^verbatim>\<open>get_random_move\<close>, otherwise \<^verbatim>\<open>self.minimax(depth=3)\<close>, where
  the parameters left out take their defaults \<^verbatim>\<open>alpha=-inf\<close>, \<^verbatim>\<open>beta=inf\<close> and
  \<^verbatim>\<open>is_maximizing=True\<close>. The draw of \<^verbatim>\<open>random.choice\<close> is the parameter \<open>choice\<close>.
\<close>

definition is_ai_turn :: "('p, 'm) rules_engine \<Rightarrow> string \<Rightarrow> 'p \<Rightarrow> bool" where
  "is_ai_turn R mode b =
     ((mode = ''hvr'' \<and> turn R b = BLACK) \<or> (mode = ''hvm'' \<and> turn R b = BLACK))"

definition get_random_move :: "('p, 'm) rules_engine \<Rightarrow> ('m list \<Rightarrow> 'm) \<Rightarrow> 'p \<Rightarrow> 'm option" where
  "get_random_move R choice b =
     (let legal = legal_moves R b in if legal \<noteq> [] then Some (choice legal) else None)"

definition play_game_computer_move ::
  "('p, 'm) rules_engine \<Rightarrow> ('m list \<Rightarrow> 'm) \<Rightarrow> string \<Rightarrow> 'p \<Rightarrow> 'm option \<times> 'p" where
  "play_game_computer_move R choice mode b =
     (if mode = ''hvr'' then (get_random_move R choice b, b)
      else (case minimax R b 3 NegInf PosInf True of ((_, move), b') \<Rightarrow> (move, b')))"

section \<open>Plain minimax, without the bounds\<close>

text \<open>
  The search the specification compares with: the same recursion over the same moves in
  the same order, with the same strict test for a new best move, but without
  \<^verbatim>\<open>alpha\<close>, \<^verbatim>\<open>beta\<close>, their updates and the \<^verbatim>\<open>break\<close>. It is not part of the
  program.
\<close>

function (sequential) plain_minimax :: "('p, 'm) rules_engine \<Rightarrow> 'p \<Rightarrow> nat \<Rightarrow> bool \<Rightarrow> ('p, 'm) search_result"
and plain_max_loop :: "('p, 'm) rules_engine \<Rightarrow> nat \<Rightarrow> 'm list \<Rightarrow> 'p \<Rightarrow> score \<Rightarrow> 'm option \<Rightarrow> ('p, 'm) search_result"
and plain_min_loop :: "('p, 'm) rules_engine \<Rightarrow> nat \<Rightarrow> 'm list \<Rightarrow> 'p \<Rightarrow> score \<Rightarrow> 'm option \<Rightarrow> ('p, 'm) search_result"
where
  "plain_minimax R b depth is_maximizing =
     (if depth = 0 \<or> is_game_over R b then ((Fin (evaluate_board R b), None), b)
      else if is_maximizing
        then plain_max_loop R (depth - 1) (legal_moves R b) b NegInf None
        else plain_min_loop R (depth - 1) (legal_moves R b) b PosInf None)"
| "plain_max_loop R d [] b max_eval best_move = ((max_eval, best_move), b)"
| "plain_max_loop R d (move # rest) b max_eval best_move =
     (case plain_minimax R (push R b move) d False of
        ((eval_score, _), b') \<Rightarrow>
          (let b'' = pop R b';
               max_eval' = (if eval_score > max_eval then eval_score else max_eval);
               best_move' = (if eval_score > max_eval then Some move else best_move)
           in plain_max_loop R d rest b'' max_eval' best_move'))"
| "plain_min_loop R d [] b min_eval best_move = ((min_eval, best_move), b)"
| "plain_min_loop R d (move # rest) b min_eval best_move =
     (case plain_minimax R (push R b move) d True of
        ((eval_score, _), b') \<Rightarrow>
          (let b'' = pop R b';
               min_eval' = (if eval_score < min_eval then eval_score else min_eval);
               best_move' = (if eval_score < min_eval then Some move else best_move)
           in plain_min_loop R d rest b'' min_eval' best_move'))"
  by pat_completeness auto

termination
  by (relation "inv_image (less_than <*lex*> less_than)
        (\<lambda>x. case x of
           Inl (R, b, depth, rest) \<Rightarrow> (depth, 0)
         | Inr (Inl (R, d, ms, rest)) \<Rightarrow> (d, Suc (length ms))
         | Inr (Inr (R, d, ms, rest)) \<Rightarrow> (d, Suc (length ms)))")
     auto

declare plain_minimax.simps [simp del]

text \<open>
  What the specification requires of the Rules Engine: undoing a legal move that was
  just applied gives the board back.
\<close>

definition reversible :: "('p, 'm) rules_engine \<Rightarrow> bool" where
  "reversible R = (\<forall>b. \<forall>m \<in> set (legal_moves R b). pop R (push R b m) = b)"

text \<open>
  What the Rules Engine guarantees about its terminal test: a board that is not game
  over has a legal move.
\<close>

definition moves_until_game_over :: "('p, 'm) rules_engine \<Rightarrow> bool" where
  "moves_until_game_over R = (\<forall>b. \<not> is_game_over R b \<longrightarrow> legal_moves R b \<noteq> [])"

text \<open>
  The relation between the value \<open>v\<close> of a position and the score \<open>ab\<close> that the
  search with the window from \<open>a\<close> to \<open>b\<close> returns for it: exact inside the window,
  a bound on the right side outside of it.
\<close>

definition within :: "score \<Rightarrow> score \<Rightarrow> score \<Rightarrow> score \<Rightarrow> bool" where
  "within a b v ab =
     ((ab \<le> a \<longrightarrow> v \<le> ab) \<and> (a < ab \<and> ab < b \<longrightarrow> ab = v) \<and> (b \<le> ab \<longrightarrow> ab \<le> v))"

definition ab_score :: "('p, 'm) rules_engine \<Rightarrow> 'p \<Rightarrow> nat \<Rightarrow> score \<Rightarrow> score \<Rightarrow> bool \<Rightarrow> score" where
  "ab_score R b d alpha beta mx = fst (fst (minimax R b d alpha beta mx))"

definition plain_score :: "('p, 'm) rules_engine \<Rightarrow> 'p \<Rightarrow> nat \<Rightarrow> bool \<Rightarrow> score" where
  "plain_score R b d mx = fst (fst (plain_minimax R b d mx))"

section \<open>A rules engine over explicit game trees\<close>

text \<open>
  To run the functions on concrete positions: a position records whose turn it is, what
  the terminal tests answer, the pieces on their squares (a1 is 0, h8 is 63) and the
  positions its moves lead to. A board is the current position with the stack of the
  positions that \<open>push\<close> left behind, which \<open>pop\<close> takes back.
\<close>

datatype gpos = GPos (g_turn: bool) (g_over: bool) (g_checkmate: bool) (g_stalemate: bool)
  (g_pieces: "(nat \<times> piece) list") (g_moves: "(nat \<times> gpos) list")

type_synonym gboard = "gpos \<times> gpos list"

definition tree_engine :: "(gboard, nat) rules_engine" where
  "tree_engine =
     \<lparr> legal_moves = (\<lambda>(t, h). map fst (g_moves t)),
       push = (\<lambda>(t, h) m. case map_of (g_moves t) m of
                 Some c \<Rightarrow> (c, t # h) | None \<Rightarrow> (t, t # h)),
       pop = (\<lambda>(t, h). case h of [] \<Rightarrow> (t, h) | x # xs \<Rightarrow> (x, xs)),
       is_game_over = (\<lambda>(t, h). g_over t \<or> g_moves t = []),
       is_checkmate = (\<lambda>(t, h). g_checkmate t),
       is_stalemate = (\<lambda>(t, h). g_stalemate t),
       turn = (\<lambda>(t, h). g_turn t),
       piece_at = (\<lambda>(t, h) square. map_of (g_pieces t) square) \<rparr>"

definition mk_piece :: "piece_type \<Rightarrow> bool \<Rightarrow> piece" where
  "mk_piece t c = \<lparr> piece_type = t, color = c \<rparr>"

text \<open>
  White king a1, black king b3, black queen c7, Black to move: the queen mates on c1
  (move 1) and stalemates on c2 (move 0). A white king and bishop against the black
  king is a draw by insufficient material although moves remain.
\<close>

definition mated_pos :: gpos where
  "mated_pos = GPos WHITE False True False
     [(0, mk_piece KING WHITE), (17, mk_piece KING BLACK), (2, mk_piece QUEEN BLACK)] []"

definition stalemated_pos :: gpos where
  "stalemated_pos = GPos WHITE False False True
     [(0, mk_piece KING WHITE), (17, mk_piece KING BLACK), (10, mk_piece QUEEN BLACK)] []"

definition queen_pos :: gpos where
  "queen_pos = GPos BLACK False False False
     [(0, mk_piece KING WHITE), (17, mk_piece KING BLACK), (50, mk_piece QUEEN BLACK)]
     [(0, stalemated_pos), (1, mated_pos)]"

definition bishop_pos :: gpos where
  "bishop_pos = GPos WHITE True False False
     [(4, mk_piece KING WHITE), (2, mk_piece BISHOP WHITE), (60, mk_piece KING BLACK)]
     [(0, GPos BLACK True False False
        [(12, mk_piece KING WHITE), (2, mk_piece BISHOP WHITE), (60, mk_piece KING BLACK)] [])]"

text \<open>The same engine with a terminal test that never reports the end of the game.\<close>

definition broken_engine :: "(gboard, nat) rules_engine" where
  "broken_engine = tree_engine\<lparr> is_game_over := (\<lambda>b. False) \<rparr>"

section \<open>Properties\<close>

subsection \<open>The two ends of the search\<close>

lemma minimax_leaf:
  "depth = 0 \<or> is_game_over R b \<Longrightarrow>
   minimax R b depth alpha beta mx = ((Fin (evaluate_board R b), None), b)"
  by (simp add: minimax.simps)

lemma minimax_inner:
  "\<not> is_game_over R b \<Longrightarrow>
   minimax R b (Suc d) alpha beta mx =
     (if mx then max_loop R d beta (legal_moves R b) b alpha NegInf None
      else min_loop R d alpha (legal_moves R b) b beta PosInf None)"
  by (simp add: minimax.simps)

lemma plain_minimax_leaf:
  "depth = 0 \<or> is_game_over R b \<Longrightarrow>
   plain_minimax R b depth mx = ((Fin (evaluate_board R b), None), b)"
  by (simp add: plain_minimax.simps)

lemma plain_minimax_inner:
  "\<not> is_game_over R b \<Longrightarrow>
   plain_minimax R b (Suc d) mx =
     (if mx then plain_max_loop R d (legal_moves R b) b NegInf None
      else plain_min_loop R d (legal_moves R b) b PosInf None)"
  by (simp add: plain_minimax.simps)

lemma reversibleD:
  "reversible R \<Longrightarrow> m \<in> set (legal_moves R b) \<Longrightarrow> pop R (push R b m) = b"
  by (simp add: reversible_def)

subsection \<open>The board after a search\<close>

lemma max_loop_board:
  assumes rev: "reversible R"
    and child: "\<And>b' al be mx. snd (minimax R b' d al be mx) = b'"
  shows "set ms \<subseteq> set (legal_moves R b) \<Longrightarrow>
         snd (max_loop R d beta ms b alpha max_eval best_move) = b"
proof (induction ms arbitrary: alpha max_eval best_move)
  case Nil
  show ?case by simp
next
  case (Cons m ms)
  obtain e mv b' where r: "minimax R (push R b m) d alpha beta False = ((e, mv), b')"
    by (metis prod.exhaust)
  have "b' = push R b m" using child [of "push R b m" alpha beta False] r by simp
  then have "pop R b' = b" using rev Cons.prems by (simp add: reversibleD)
  then show ?case using r Cons.IH Cons.prems by (simp add: Let_def)
qed

lemma min_loop_board:
  assumes rev: "reversible R"
    and child: "\<And>b' al be mx. snd (minimax R b' d al be mx) = b'"
  shows "set ms \<subseteq> set (legal_moves R b) \<Longrightarrow>
         snd (min_loop R d alpha ms b beta min_eval best_move) = b"
proof (induction ms arbitrary: beta min_eval best_move)
  case Nil
  show ?case by simp
next
  case (Cons m ms)
  obtain e mv b' where r: "minimax R (push R b m) d alpha beta True = ((e, mv), b')"
    by (metis prod.exhaust)
  have "b' = push R b m" using child [of "push R b m" alpha beta True] r by simp
  then have "pop R b' = b" using rev Cons.prems by (simp add: reversibleD)
  then show ?case using r Cons.IH Cons.prems by (simp add: Let_def)
qed

lemma minimax_board:
  assumes rev: "reversible R"
  shows "snd (minimax R b depth alpha beta mx) = b"
proof (induction depth arbitrary: b alpha beta mx)
  case 0
  show ?case by (simp add: minimax_leaf)
next
  case (Suc d)
  show ?case
  proof (cases "is_game_over R b")
    case True
    then show ?thesis by (simp add: minimax_leaf)
  next
    case False
    then show ?thesis
      using max_loop_board [OF rev Suc.IH, of "legal_moves R b" b]
        min_loop_board [OF rev Suc.IH, of "legal_moves R b" b]
      by (simp add: minimax_inner)
  qed
qed

lemma plain_max_loop_board:
  assumes rev: "reversible R"
    and child: "\<And>b' mx. snd (plain_minimax R b' d mx) = b'"
  shows "set ms \<subseteq> set (legal_moves R b) \<Longrightarrow>
         snd (plain_max_loop R d ms b max_eval best_move) = b"
proof (induction ms arbitrary: max_eval best_move)
  case Nil
  show ?case by simp
next
  case (Cons m ms)
  obtain e mv b' where r: "plain_minimax R (push R b m) d False = ((e, mv), b')"
    by (metis prod.exhaust)
  have "b' = push R b m" using child [of "push R b m" False] r by simp
  then have "pop R b' = b" using rev Cons.prems by (simp add: reversibleD)
  then show ?case using r Cons.IH Cons.prems by (simp add: Let_def)
qed

lemma plain_min_loop_board:
  assumes rev: "reversible R"
    and child: "\<And>b' mx. snd (plain_minimax R b' d mx) = b'"
  shows "set ms \<subseteq> set (legal_moves R b) \<Longrightarrow>
         snd (plain_min_loop R d ms b min_eval best_move) = b"
proof (induction ms arbitrary: min_eval best_move)
  case Nil
  show ?case by simp
next
  case (Cons m ms)
  obtain e mv b' where r: "plain_minimax R (push R b m) d True = ((e, mv), b')"
    by (metis prod.exhaust)
  have "b' = push R b m" using child [of "push R b m" True] r by simp
  then have "pop R b' = b" using rev Cons.prems by (simp add: reversibleD)
  then show ?case using r Cons.IH Cons.prems by (simp add: Let_def)
qed

lemma plain_minimax_board:
  assumes rev: "reversible R"
  shows "snd (plain_minimax R b depth mx) = b"
proof (induction depth arbitrary: b mx)
  case 0
  show ?case by (simp add: plain_minimax_leaf)
next
  case (Suc d)
  show ?case
  proof (cases "is_game_over R b")
    case True
    then show ?thesis by (simp add: plain_minimax_leaf)
  next
    case False
    then show ?thesis
      using plain_max_loop_board [OF rev Suc.IH, of "legal_moves R b" b]
        plain_min_loop_board [OF rev Suc.IH, of "legal_moves R b" b]
      by (simp add: plain_minimax_inner)
  qed
qed

subsection \<open>The loops, one move at a time, on a reversible engine\<close>

lemma max_loop_Cons:
  assumes "reversible R" and "m \<in> set (legal_moves R b)"
  shows "max_loop R d beta (m # rest) b alpha M bm =
     (let e = ab_score R (push R b m) d alpha beta False
      in if beta \<le> max alpha e then ((max M e, if M < e then Some m else bm), b)
         else max_loop R d beta rest b (max alpha e) (max M e) (if M < e then Some m else bm))"
proof -
  obtain e mv b' where r: "minimax R (push R b m) d alpha beta False = ((e, mv), b')"
    by (metis prod.exhaust)
  have "b' = push R b m"
    using minimax_board [OF assms(1), of "push R b m" d alpha beta False] r by simp
  then have "pop R b' = b" using assms by (simp add: reversibleD)
  then show ?thesis using r by (auto simp add: Let_def ab_score_def max_def)
qed

lemma min_loop_Cons:
  assumes "reversible R" and "m \<in> set (legal_moves R b)"
  shows "min_loop R d alpha (m # rest) b beta M bm =
     (let e = ab_score R (push R b m) d alpha beta True
      in if min beta e \<le> alpha then ((min M e, if e < M then Some m else bm), b)
         else min_loop R d alpha rest b (min beta e) (min M e) (if e < M then Some m else bm))"
proof -
  obtain e mv b' where r: "minimax R (push R b m) d alpha beta True = ((e, mv), b')"
    by (metis prod.exhaust)
  have "b' = push R b m"
    using minimax_board [OF assms(1), of "push R b m" d alpha beta True] r by simp
  then have "pop R b' = b" using assms by (simp add: reversibleD)
  then show ?thesis using r by (auto simp add: Let_def ab_score_def min_def)
qed

lemma plain_max_loop_Cons:
  assumes "reversible R" and "m \<in> set (legal_moves R b)"
  shows "plain_max_loop R d (m # rest) b M bm =
     (let v = plain_score R (push R b m) d False
      in plain_max_loop R d rest b (max M v) (if M < v then Some m else bm))"
proof -
  obtain e mv b' where r: "plain_minimax R (push R b m) d False = ((e, mv), b')"
    by (metis prod.exhaust)
  have "b' = push R b m"
    using plain_minimax_board [OF assms(1), of "push R b m" d False] r by simp
  then have "pop R b' = b" using assms by (simp add: reversibleD)
  then show ?thesis using r by (auto simp add: Let_def plain_score_def max_def)
qed

lemma plain_min_loop_Cons:
  assumes "reversible R" and "m \<in> set (legal_moves R b)"
  shows "plain_min_loop R d (m # rest) b M bm =
     (let v = plain_score R (push R b m) d True
      in plain_min_loop R d rest b (min M v) (if v < M then Some m else bm))"
proof -
  obtain e mv b' where r: "plain_minimax R (push R b m) d True = ((e, mv), b')"
    by (metis prod.exhaust)
  have "b' = push R b m"
    using plain_minimax_board [OF assms(1), of "push R b m" d True] r by simp
  then have "pop R b' = b" using assms by (simp add: reversibleD)
  then show ?thesis using r by (auto simp add: Let_def plain_score_def min_def)
qed

declare max_loop.simps(2) [simp del] min_loop.simps(2) [simp del]
  plain_max_loop.simps(2) [simp del] plain_min_loop.simps(2) [simp del]

lemma NegInf_least [simp]: "NegInf \<le> (x::score)"
  by simp

lemma PosInf_greatest [simp]: "(x::score) \<le> PosInf"
  by (cases x) simp_all

lemma max_NegInf [simp]: "max NegInf (x::score) = x"
  by (simp add: max_def)

lemma min_PosInf [simp]: "min PosInf (x::score) = x"
  by (cases x) (simp_all add: min_def)

lemma within_refl: "within a b v v"
  by (simp add: within_def)

subsection \<open>What the loops return\<close>

lemma plain_max_loop_score:
  assumes rev: "reversible R"
  shows "set ms \<subseteq> set (legal_moves R b) \<Longrightarrow>
         fst (fst (plain_max_loop R d ms b M bm)) =
         max M (fst (fst (plain_max_loop R d ms b NegInf None)))"
proof (induction ms arbitrary: M bm)
  case Nil
  show ?case by simp
next
  case (Cons m ms)
  let ?v = "plain_score R (push R b m) d False"
  let ?W = "fst (fst (plain_max_loop R d ms b NegInf None))"
  have m: "m \<in> set (legal_moves R b)" and ms: "set ms \<subseteq> set (legal_moves R b)"
    using Cons.prems by simp_all
  have l: "fst (fst (plain_max_loop R d (m # ms) b M bm)) = max (max M ?v) ?W"
    using Cons.IH [OF ms, of "max M ?v" "if M < ?v then Some m else bm"]
    by (simp add: plain_max_loop_Cons [OF rev m] Let_def)
  have r: "fst (fst (plain_max_loop R d (m # ms) b NegInf None)) = max ?v ?W"
    using Cons.IH [OF ms, of ?v "if NegInf < ?v then Some m else None"]
    by (simp add: plain_max_loop_Cons [OF rev m] Let_def)
  show ?case unfolding l r by (simp add: max.assoc)
qed

lemma plain_min_loop_score:
  assumes rev: "reversible R"
  shows "set ms \<subseteq> set (legal_moves R b) \<Longrightarrow>
         fst (fst (plain_min_loop R d ms b M bm)) =
         min M (fst (fst (plain_min_loop R d ms b PosInf None)))"
proof (induction ms arbitrary: M bm)
  case Nil
  show ?case by simp
next
  case (Cons m ms)
  let ?v = "plain_score R (push R b m) d True"
  let ?W = "fst (fst (plain_min_loop R d ms b PosInf None))"
  have m: "m \<in> set (legal_moves R b)" and ms: "set ms \<subseteq> set (legal_moves R b)"
    using Cons.prems by simp_all
  have l: "fst (fst (plain_min_loop R d (m # ms) b M bm)) = min (min M ?v) ?W"
    using Cons.IH [OF ms, of "min M ?v" "if ?v < M then Some m else bm"]
    by (simp add: plain_min_loop_Cons [OF rev m] Let_def)
  have r: "fst (fst (plain_min_loop R d (m # ms) b PosInf None)) = min ?v ?W"
    using Cons.IH [OF ms, of ?v "if ?v < PosInf then Some m else None"]
    by (simp add: plain_min_loop_Cons [OF rev m] Let_def)
  show ?case unfolding l r by (simp add: min.assoc)
qed

lemma max_loop_ge:
  assumes rev: "reversible R"
  shows "set ms \<subseteq> set (legal_moves R b) \<Longrightarrow>
         M \<le> fst (fst (max_loop R d beta ms b alpha M bm))"
proof (induction ms arbitrary: alpha M bm)
  case Nil
  show ?case by simp
next
  case (Cons m ms)
  let ?e = "ab_score R (push R b m) d alpha beta False"
  have m: "m \<in> set (legal_moves R b)" and ms: "set ms \<subseteq> set (legal_moves R b)"
    using Cons.prems by simp_all
  have "max M ?e \<le> fst (fst (max_loop R d beta ms b (max alpha ?e) (max M ?e)
            (if M < ?e then Some m else bm)))"
    by (rule Cons.IH [OF ms])
  then show ?case
    by (simp add: max_loop_Cons [OF rev m] Let_def)
qed

lemma min_loop_le:
  assumes rev: "reversible R"
  shows "set ms \<subseteq> set (legal_moves R b) \<Longrightarrow>
         fst (fst (min_loop R d alpha ms b beta M bm)) \<le> M"
proof (induction ms arbitrary: beta M bm)
  case Nil
  show ?case by simp
next
  case (Cons m ms)
  let ?e = "ab_score R (push R b m) d alpha beta True"
  have m: "m \<in> set (legal_moves R b)" and ms: "set ms \<subseteq> set (legal_moves R b)"
    using Cons.prems by simp_all
  have "fst (fst (min_loop R d alpha ms b (min beta ?e) (min M ?e)
            (if ?e < M then Some m else bm))) \<le> min M ?e"
    by (rule Cons.IH [OF ms])
  then show ?case
    by (simp add: min_loop_Cons [OF rev m] Let_def)
qed

lemma within_max_step_cut:
  assumes w: "within A B v e" and MA: "M \<le> A" and AB: "A < B" and cut: "B \<le> max A e"
  shows "within A B (max M (max v W)) (max M e)"
proof -
  have Be: "B \<le> e" using cut AB by (auto simp add: max_def split: if_splits)
  then have ev: "e \<le> v" using w by (simp add: within_def)
  have Me: "max M e = e" using MA AB Be by (auto simp add: max_def)
  have "\<not> e \<le> A" "\<not> e < B" "e \<le> max M (max v W)"
    using AB Be ev by (simp_all add: le_max_iff_disj)
  then show ?thesis unfolding Me by (simp add: within_def)
qed

lemma within_max_step:
  assumes w: "within A B v e" and MA: "M \<le> A" and AB: "A < B"
    and nocut: "\<not> B \<le> max A e"
    and ih: "within (max A e) B (max (max M e) W) r" and ge: "max M e \<le> r"
  shows "within A B (max M (max v W)) r"
proof (cases "e \<le> A")
  case True
  then have ve: "v \<le> e" using w by (simp add: within_def)
  have A': "max A e = A" using True by (auto simp add: max_def)
  have ih': "within A B (max (max M e) W) r" using ih unfolding A' .
  have le: "max M (max v W) \<le> max (max M e) W"
    using ve by (simp add: le_max_iff_disj) (metis le_cases order_trans)
  have eq: "A < max (max M e) W \<Longrightarrow> max M (max v W) = max (max M e) W"
    using ve True MA by (auto simp add: max_def split: if_splits)
  show ?thesis
    unfolding within_def
  proof (intro conjI impI)
    assume "r \<le> A"
    then have "max (max M e) W \<le> r" using ih' by (simp add: within_def)
    then show "max M (max v W) \<le> r" using le by (rule order_trans [rotated])
  next
    assume a: "A < r \<and> r < B"
    then have "r = max (max M e) W" using ih' by (simp add: within_def)
    then show "r = max M (max v W)" using eq a by simp
  next
    assume "B \<le> r"
    then have b: "r \<le> max (max M e) W" using ih' by (simp add: within_def)
    then have "A < max (max M e) W" using \<open>B \<le> r\<close> AB by (meson less_le_trans)
    then show "r \<le> max M (max v W)" using eq b by simp
  qed
next
  case False
  then have Ae: "A < e" by simp
  have eB: "e < B" using nocut by (auto simp add: max_def split: if_splits)
  have ev: "e = v" using w Ae eB by (simp add: within_def)
  have A': "max A e = e" using Ae by (auto simp add: max_def)
  have M': "max M e = e" using Ae MA by (auto simp add: max_def)
  have V: "max M (max v W) = max e W"
    using Ae MA ev by (auto simp add: max_def)
  have ih': "within e B (max e W) r" using ih unfolding A' M' .
  have er: "e \<le> r" using ge unfolding M' .
  show ?thesis
    unfolding within_def V
  proof (intro conjI impI)
    assume "r \<le> A"
    then show "max e W \<le> r" using er Ae by simp
  next
    assume a: "A < r \<and> r < B"
    show "r = max e W"
    proof (cases "r \<le> e")
      case True
      then have "max e W \<le> r" using ih' by (simp add: within_def)
      moreover have "r = e" using True er by simp
      ultimately show ?thesis by (auto simp add: max_def)
    next
      case False
      then show ?thesis using ih' a by (simp add: within_def)
    qed
  next
    assume "B \<le> r"
    then show "r \<le> max e W" using ih' by (simp add: within_def)
  qed
qed


lemma within_min_step_cut:
  assumes w: "within A B v e" and BM: "B \<le> M" and AB: "A < B" and cut: "min B e \<le> A"
  shows "within A B (min M (min v W)) (min M e)"
proof -
  have eA: "e \<le> A" using cut AB by (auto simp add: min_def split: if_splits)
  then have ve: "v \<le> e" using w by (simp add: within_def)
  have Me: "min M e = e" using BM AB eA by (auto simp add: min_def)
  have "\<not> A < e" "\<not> B \<le> e" "min M (min v W) \<le> e"
    using AB eA ve by (auto simp add: min_le_iff_disj)
  then show ?thesis unfolding Me by (simp add: within_def)
qed

lemma within_min_step:
  assumes w: "within A B v e" and BM: "B \<le> M" and AB: "A < B"
    and nocut: "\<not> min B e \<le> A"
    and ih: "within A (min B e) (min (min M e) W) r" and le: "r \<le> min M e"
  shows "within A B (min M (min v W)) r"
proof (cases "B \<le> e")
  case True
  then have ev: "e \<le> v" using w by (simp add: within_def)
  have B': "min B e = B" using True by (auto simp add: min_def)
  have ih': "within A B (min (min M e) W) r" using ih unfolding B' .
  have ge: "min (min M e) W \<le> min M (min v W)"
    using ev by (auto simp add: min_def)
  have eq: "min (min M e) W < B \<Longrightarrow> min M (min v W) = min (min M e) W"
    using ev True BM by (auto simp add: min_def split: if_splits)
  show ?thesis
    unfolding within_def
  proof (intro conjI impI)
    assume rA: "r \<le> A"
    then have b: "min (min M e) W \<le> r" using ih' by (simp add: within_def)
    then have "min (min M e) W < B" using rA AB by (meson le_less_trans)
    then show "min M (min v W) \<le> r" using eq b by simp
  next
    assume a: "A < r \<and> r < B"
    then have "r = min (min M e) W" using ih' by (simp add: within_def)
    then show "r = min M (min v W)" using eq a by simp
  next
    assume "B \<le> r"
    then have "r \<le> min (min M e) W" using ih' by (simp add: within_def)
    then show "r \<le> min M (min v W)" using ge by (rule order_trans)
  qed
next
  case False
  then have eB: "e < B" by simp
  have Ae: "A < e" using nocut by (auto simp add: min_def split: if_splits)
  have ev: "e = v" using w Ae eB by (simp add: within_def)
  have B': "min B e = e" using eB by (auto simp add: min_def)
  have M': "min M e = e" using eB BM by (auto simp add: min_def)
  have V: "min M (min v W) = min e W"
    using eB BM ev by (auto simp add: min_def)
  have ih': "within A e (min e W) r" using ih unfolding B' M' .
  have re: "r \<le> e" using le unfolding M' .
  show ?thesis
    unfolding within_def V
  proof (intro conjI impI)
    assume "r \<le> A"
    then show "min e W \<le> r" using ih' by (simp add: within_def)
  next
    assume a: "A < r \<and> r < B"
    show "r = min e W"
    proof (cases "e \<le> r")
      case True
      then have "r \<le> min e W" using ih' unfolding within_def by blast
      moreover have "r = e" using True re by simp
      ultimately show ?thesis by (simp add: min_def split: if_splits)
    next
      case False
      then show ?thesis using ih' a by (simp add: within_def)
    qed
  next
    assume "B \<le> r"
    then show "r \<le> min e W" using re eB by simp
  qed
qed

subsection \<open>The loops keep the value inside the window\<close>

lemma max_loop_within:
  assumes rev: "reversible R"
    and child: "\<And>b' al be. al < be \<Longrightarrow>
        within al be (plain_score R b' d False) (ab_score R b' d al be False)"
  shows "set ms \<subseteq> set (legal_moves R b) \<Longrightarrow> M \<le> A \<Longrightarrow> A < B \<Longrightarrow>
         within A B (max M (fst (fst (plain_max_loop R d ms b NegInf None))))
           (fst (fst (max_loop R d B ms b A M bm)))"
proof (induction ms arbitrary: A M bm)
  case Nil
  show ?case by (simp add: within_refl)
next
  case (Cons m ms)
  let ?e = "ab_score R (push R b m) d A B False"
  let ?v = "plain_score R (push R b m) d False"
  let ?W = "fst (fst (plain_max_loop R d ms b NegInf None))"
  let ?bm = "if M < ?e then Some m else bm"
  have m: "m \<in> set (legal_moves R b)" and ms: "set ms \<subseteq> set (legal_moves R b)"
    using Cons.prems by simp_all
  have w: "within A B ?v ?e" using child Cons.prems(3) .
  have plain: "fst (fst (plain_max_loop R d (m # ms) b NegInf None)) = max ?v ?W"
    using plain_max_loop_score [OF rev ms, of d ?v "if NegInf < ?v then Some m else None"]
    by (simp add: plain_max_loop_Cons [OF rev m] Let_def)
  show ?case
  proof (cases "B \<le> max A ?e")
    case True
    have "within A B (max M (max ?v ?W)) (max M ?e)"
      using w Cons.prems(2,3) True by (rule within_max_step_cut)
    then show ?thesis
      unfolding plain using True by (simp add: max_loop_Cons [OF rev m] Let_def)
  next
    case False
    let ?r = "fst (fst (max_loop R d B ms b (max A ?e) (max M ?e) ?bm))"
    have lt: "max A ?e < B" using False by (simp add: not_le)
    have le: "max M ?e \<le> max A ?e" using Cons.prems(2) by (auto simp add: max_def)
    have ih: "within (max A ?e) B (max (max M ?e) ?W) ?r"
      using Cons.IH [OF ms le lt] .
    have ge: "max M ?e \<le> ?r" using max_loop_ge [OF rev ms] .
    have "within A B (max M (max ?v ?W)) ?r"
      using w Cons.prems(2,3) False ih ge by (rule within_max_step)
    then show ?thesis
      unfolding plain using False by (simp add: max_loop_Cons [OF rev m] Let_def)
  qed
qed

lemma min_loop_within:
  assumes rev: "reversible R"
    and child: "\<And>b' al be. al < be \<Longrightarrow>
        within al be (plain_score R b' d True) (ab_score R b' d al be True)"
  shows "set ms \<subseteq> set (legal_moves R b) \<Longrightarrow> B \<le> M \<Longrightarrow> A < B \<Longrightarrow>
         within A B (min M (fst (fst (plain_min_loop R d ms b PosInf None))))
           (fst (fst (min_loop R d A ms b B M bm)))"
proof (induction ms arbitrary: B M bm)
  case Nil
  show ?case by (simp add: within_refl)
next
  case (Cons m ms)
  let ?e = "ab_score R (push R b m) d A B True"
  let ?v = "plain_score R (push R b m) d True"
  let ?W = "fst (fst (plain_min_loop R d ms b PosInf None))"
  let ?bm = "if ?e < M then Some m else bm"
  have m: "m \<in> set (legal_moves R b)" and ms: "set ms \<subseteq> set (legal_moves R b)"
    using Cons.prems by simp_all
  have w: "within A B ?v ?e" using child Cons.prems(3) .
  have plain: "fst (fst (plain_min_loop R d (m # ms) b PosInf None)) = min ?v ?W"
    using plain_min_loop_score [OF rev ms, of d ?v "if ?v < PosInf then Some m else None"]
    by (simp add: plain_min_loop_Cons [OF rev m] Let_def)
  show ?case
  proof (cases "min B ?e \<le> A")
    case True
    have "within A B (min M (min ?v ?W)) (min M ?e)"
      using w Cons.prems(2,3) True by (rule within_min_step_cut)
    then show ?thesis
      unfolding plain using True by (simp add: min_loop_Cons [OF rev m] Let_def)
  next
    case False
    let ?r = "fst (fst (min_loop R d A ms b (min B ?e) (min M ?e) ?bm))"
    have lt: "A < min B ?e" using False by (simp add: not_le)
    have le: "min B ?e \<le> min M ?e" using Cons.prems(2) by (auto simp add: min_def)
    have ih: "within A (min B ?e) (min (min M ?e) ?W) ?r"
      using Cons.IH [OF ms le lt] .
    have ge: "?r \<le> min M ?e" using min_loop_le [OF rev ms] .
    have "within A B (min M (min ?v ?W)) ?r"
      using w Cons.prems(2,3) False ih ge by (rule within_min_step)
    then show ?thesis
      unfolding plain using False by (simp add: min_loop_Cons [OF rev m] Let_def)
  qed
qed

lemma minimax_within:
  assumes rev: "reversible R"
  shows "alpha < beta \<Longrightarrow>
         within alpha beta (plain_score R b depth mx) (ab_score R b depth alpha beta mx)"
proof (induction depth arbitrary: b alpha beta mx)
  case 0
  show ?case
    by (simp add: plain_score_def ab_score_def minimax_leaf plain_minimax_leaf within_refl)
next
  case (Suc d)
  show ?case
  proof (cases "is_game_over R b")
    case True
    then show ?thesis
      by (simp add: plain_score_def ab_score_def minimax_leaf plain_minimax_leaf within_refl)
  next
    case False
    show ?thesis
    proof (cases mx)
      case True
      have "within alpha beta
              (max NegInf (fst (fst (plain_max_loop R d (legal_moves R b) b NegInf None))))
              (fst (fst (max_loop R d beta (legal_moves R b) b alpha NegInf None)))"
        using Suc.IH Suc.prems
        by (intro max_loop_within [OF rev]) simp_all
      then show ?thesis using False True
        by (simp add: plain_score_def ab_score_def minimax_inner plain_minimax_inner)
    next
      case mn: False
      have "within alpha beta
              (min PosInf (fst (fst (plain_min_loop R d (legal_moves R b) b PosInf None))))
              (fst (fst (min_loop R d alpha (legal_moves R b) b beta PosInf None)))"
        using Suc.IH Suc.prems
        by (intro min_loop_within [OF rev]) simp_all
      then show ?thesis using False mn
        by (simp add: plain_score_def ab_score_def minimax_inner plain_minimax_inner)
    qed
  qed
qed

lemma NegInf_less_PosInf [simp]: "NegInf < PosInf"
  by (simp add: less_score_def)

lemma not_less_PosInf: "\<not> x < PosInf \<Longrightarrow> x = PosInf"
  by (cases x) (simp_all add: less_score_def)

lemma not_NegInf_less: "\<not> NegInf < x \<Longrightarrow> x = NegInf"
  by (cases x) (simp_all add: less_score_def)

lemma within_top:
  assumes w: "within M PosInf v e"
  shows "max M e = max M v \<and> (M < e) = (M < v)"
proof (cases "e \<le> M")
  case True
  then have "v \<le> e" using w by (simp add: within_def)
  then show ?thesis using True by (auto simp add: max_def)
next
  case False
  have "e = v"
  proof (cases "e < PosInf")
    case True
    then show ?thesis using w False by (simp add: within_def)
  next
    case f: False
    then have e: "e = PosInf" by (rule not_less_PosInf)
    then have "e \<le> v" using w by (simp add: within_def)
    then show ?thesis unfolding e by (cases v) simp_all
  qed
  then show ?thesis by simp
qed

lemma within_bot:
  assumes w: "within NegInf M v e"
  shows "min M e = min M v \<and> (e < M) = (v < M)"
proof (cases "M \<le> e")
  case True
  then have "e \<le> v" using w by (simp add: within_def)
  then show ?thesis using True by (auto simp add: min_def)
next
  case False
  have "e = v"
  proof (cases "NegInf < e")
    case True
    then show ?thesis using w False by (simp add: within_def)
  next
    case f: False
    then have e: "e = NegInf" by (rule not_NegInf_less)
    then have "v \<le> e" using w by (simp add: within_def)
    then show ?thesis unfolding e by (cases v) simp_all
  qed
  then show ?thesis by simp
qed

lemma plain_max_loop_top:
  assumes rev: "reversible R"
  shows "set ms \<subseteq> set (legal_moves R b) \<Longrightarrow>
         plain_max_loop R d ms b PosInf bm = ((PosInf, bm), b)"
proof (induction ms)
  case Nil
  show ?case by simp
next
  case (Cons m ms)
  then have m: "m \<in> set (legal_moves R b)" by simp
  have "\<not> PosInf < plain_score R (push R b m) d False" by (simp add: not_less)
  then show ?case using Cons
    by (simp add: plain_max_loop_Cons [OF rev m] Let_def max_def)
qed

lemma plain_min_loop_bot:
  assumes rev: "reversible R"
  shows "set ms \<subseteq> set (legal_moves R b) \<Longrightarrow>
         plain_min_loop R d ms b NegInf bm = ((NegInf, bm), b)"
proof (induction ms)
  case Nil
  show ?case by simp
next
  case (Cons m ms)
  then have m: "m \<in> set (legal_moves R b)" by simp
  have "\<not> plain_score R (push R b m) d True < NegInf" by (simp add: not_less)
  then show ?case using Cons
    by (simp add: plain_min_loop_Cons [OF rev m] Let_def min_def)
qed

lemma max_loop_full:
  assumes rev: "reversible R"
  shows "set ms \<subseteq> set (legal_moves R b) \<Longrightarrow> M < PosInf \<Longrightarrow>
         max_loop R d PosInf ms b M M bm = plain_max_loop R d ms b M bm"
proof (induction ms arbitrary: M bm)
  case Nil
  show ?case by simp
next
  case (Cons m ms)
  let ?e = "ab_score R (push R b m) d M PosInf False"
  let ?v = "plain_score R (push R b m) d False"
  have m: "m \<in> set (legal_moves R b)" and ms: "set ms \<subseteq> set (legal_moves R b)"
    using Cons.prems by simp_all
  have "within M PosInf ?v ?e" using minimax_within [OF rev Cons.prems(2)] .
  then have eq: "max M ?e = max M ?v" and flag: "(M < ?e) = (M < ?v)"
    using within_top by blast+
  show ?case
  proof (cases "PosInf \<le> max M ?e")
    case True
    then have top: "max M ?v = PosInf" unfolding eq by (cases "max M ?v") simp_all
    show ?thesis
      using True plain_max_loop_top [OF rev ms]
      by (simp add: max_loop_Cons [OF rev m] plain_max_loop_Cons [OF rev m] Let_def
          flag top eq)
  next
    case False
    then have "max M ?e < PosInf" by (simp add: not_le)
    then have "max_loop R d PosInf ms b (max M ?e) (max M ?e) (if M < ?e then Some m else bm) =
               plain_max_loop R d ms b (max M ?e) (if M < ?e then Some m else bm)"
      by (rule Cons.IH [OF ms])
    then show ?thesis using False
      by (simp add: max_loop_Cons [OF rev m] plain_max_loop_Cons [OF rev m] Let_def
          flag eq)
  qed
qed

lemma min_loop_full:
  assumes rev: "reversible R"
  shows "set ms \<subseteq> set (legal_moves R b) \<Longrightarrow> NegInf < M \<Longrightarrow>
         min_loop R d NegInf ms b M M bm = plain_min_loop R d ms b M bm"
proof (induction ms arbitrary: M bm)
  case Nil
  show ?case by simp
next
  case (Cons m ms)
  let ?e = "ab_score R (push R b m) d NegInf M True"
  let ?v = "plain_score R (push R b m) d True"
  have m: "m \<in> set (legal_moves R b)" and ms: "set ms \<subseteq> set (legal_moves R b)"
    using Cons.prems by simp_all
  have "within NegInf M ?v ?e" using minimax_within [OF rev Cons.prems(2)] .
  then have eq: "min M ?e = min M ?v" and flag: "(?e < M) = (?v < M)"
    using within_bot by blast+
  show ?case
  proof (cases "min M ?e \<le> NegInf")
    case True
    then have bot: "min M ?v = NegInf" unfolding eq by (cases "min M ?v") simp_all
    show ?thesis
      using True plain_min_loop_bot [OF rev ms]
      by (simp add: min_loop_Cons [OF rev m] plain_min_loop_Cons [OF rev m] Let_def
          flag bot eq)
  next
    case False
    then have "NegInf < min M ?e" by (simp add: not_le)
    then have "min_loop R d NegInf ms b (min M ?e) (min M ?e) (if ?e < M then Some m else bm) =
               plain_min_loop R d ms b (min M ?e) (if ?e < M then Some m else bm)"
      by (rule Cons.IH [OF ms])
    then show ?thesis using False
      by (simp add: min_loop_Cons [OF rev m] plain_min_loop_Cons [OF rev m] Let_def
          flag eq)
  qed
qed

text \<open>
  Claim C2. On a rules engine whose \<open>pop\<close> undoes \<open>push\<close>, for every board, depth
  and side, \<open>minimax\<close> called with \<open>alpha = -inf\<close> and \<open>beta = inf\<close> returns the same
  pair of score and move as plain minimax without pruning.
\<close>

theorem pruning_equivalence:
  assumes "reversible R"
  shows "fst (minimax R b depth NegInf PosInf is_maximizing) =
         fst (plain_minimax R b depth is_maximizing)"
proof (cases "depth = 0 \<or> is_game_over R b")
  case True
  then show ?thesis by (simp add: minimax_leaf plain_minimax_leaf)
next
  case False
  then obtain d where d: "depth = Suc d" by (cases depth) simp_all
  show ?thesis
    using False max_loop_full [OF assms, of "legal_moves R b" b NegInf d None]
      min_loop_full [OF assms, of "legal_moves R b" b PosInf d None]
    unfolding d by (simp add: minimax_inner plain_minimax_inner)
qed

lemma tree_engine_reversible: "reversible tree_engine"
  by (auto simp add: reversible_def tree_engine_def split: option.splits)

text \<open>
  Claim C2 on the game-tree engine, for the minimizing side at depth 3.
\<close>

theorem pruning_equivalence_witness:
  "reversible tree_engine
   \<and> fst (minimax tree_engine (queen_pos, []) 3 NegInf PosInf False) = (Fin (- 1000), Some 1)
   \<and> fst (plain_minimax tree_engine (queen_pos, []) 3 False) = (Fin (- 1000), Some 1)"
proof -
  have "fst (minimax tree_engine (queen_pos, []) 3 NegInf PosInf False) = (Fin (- 1000), Some 1)"
    by (simp add: minimax.simps max_loop.simps min_loop.simps evaluate_board_def
        tree_engine_def mated_pos_def stalemated_pos_def queen_pos_def WHITE_def BLACK_def
        less_score_def)
  then show ?thesis
    using tree_engine_reversible
      pruning_equivalence [OF tree_engine_reversible, of "(queen_pos, [])" 3 False]
    by simp
qed

lemmas pos_defs = tree_engine_def mated_pos_def stalemated_pos_def queen_pos_def bishop_pos_def
  mk_piece_def WHITE_def BLACK_def broken_engine_def

subsection \<open>The evaluator\<close>

lemma piece_values_range: "0 \<le> piece_values t \<and> piece_values t \<le> 9"
  by (cases t) simp_all

lemma add_square_step: "\<bar>add_square R b square s\<bar> \<le> \<bar>s\<bar> + 9"
proof (cases "piece_at R b square")
  case None
  then show ?thesis by (simp add: add_square_def)
next
  case (Some p)
  have "0 \<le> piece_values (piece_type p)" "piece_values (piece_type p) \<le> 9"
    using piece_values_range by simp_all
  then show ?thesis using Some by (auto simp add: add_square_def Let_def)
qed

lemma fold_add_square_bound:
  "\<bar>fold (add_square R b) xs s\<bar> \<le> \<bar>s\<bar> + 9 * int (length xs)"
proof (induction xs arbitrary: s)
  case Nil
  show ?case by simp
next
  case (Cons x xs)
  have "\<bar>fold (add_square R b) xs (add_square R b x s)\<bar>
        \<le> \<bar>add_square R b x s\<bar> + 9 * int (length xs)"
    by (rule Cons.IH)
  also have "\<dots> \<le> (\<bar>s\<bar> + 9) + 9 * int (length xs)"
    using add_square_step [of R b x s] by simp
  finally show ?case by simp
qed

lemma material_bound: "\<bar>fold (add_square R b) SQUARES 0\<bar> \<le> 576"
  using fold_add_square_bound [of R b SQUARES 0] by (simp add: SQUARES_def)

text \<open>
  Claim C9. The evaluation never exceeds 1000 in magnitude; it is exactly 1000 in
  magnitude at a checkmate and at most 576 (64 squares of at most 9) at every position
  that is not a checkmate, which every position that is not terminal is; so a checkmate
  \<open>c\<close> evaluates strictly larger in magnitude than such a position \<open>b\<close>, and no
  evaluation is one of the two infinities that bound the search.
\<close>

theorem evaluate_board_bounds:
  "\<bar>evaluate_board R b\<bar> \<le> 1000
   \<and> (is_checkmate R b \<longrightarrow> \<bar>evaluate_board R b\<bar> = 1000)
   \<and> (\<not> is_checkmate R b \<longrightarrow> \<bar>evaluate_board R b\<bar> \<le> 576)
   \<and> (is_checkmate R c \<and> \<not> is_checkmate R b \<longrightarrow>
        \<bar>evaluate_board R b\<bar> < \<bar>evaluate_board R c\<bar>)
   \<and> NegInf < Fin (evaluate_board R b) \<and> Fin (evaluate_board R b) < PosInf"
proof -
  have m: "\<bar>fold (add_square R b) SQUARES 0\<bar> \<le> 576" by (rule material_bound)
  have 1: "is_checkmate R b \<Longrightarrow> \<bar>evaluate_board R b\<bar> = 1000"
    by (simp add: evaluate_board_def)
  have 2: "\<not> is_checkmate R b \<Longrightarrow> \<bar>evaluate_board R b\<bar> \<le> 576"
    using m by (simp add: evaluate_board_def)
  have 3: "is_checkmate R c \<Longrightarrow> \<bar>evaluate_board R c\<bar> = 1000"
    by (simp add: evaluate_board_def)
  have 4: "\<bar>evaluate_board R b\<bar> \<le> 1000"
    using 1 2 by (cases "is_checkmate R b") simp_all
  show ?thesis using 1 2 3 4 by (auto simp add: less_score_def)
qed

text \<open>
  The bounds of claim C9 at the mated position and at the position before the mate.
\<close>

theorem evaluate_board_bounds_witness:
  "is_checkmate tree_engine (mated_pos, [])
   \<and> \<not> is_checkmate tree_engine (queen_pos, [])
   \<and> \<not> is_game_over tree_engine (queen_pos, [])
   \<and> \<bar>evaluate_board tree_engine (mated_pos, [])\<bar> = 1000
   \<and> \<bar>evaluate_board tree_engine (queen_pos, [])\<bar> \<le> 576
   \<and> \<bar>evaluate_board tree_engine (queen_pos, [])\<bar> < \<bar>evaluate_board tree_engine (mated_pos, [])\<bar>"
proof -
  have c: "is_checkmate tree_engine (mated_pos, [])" by (simp add: pos_defs)
  have n: "\<not> is_checkmate tree_engine (queen_pos, [])" by (simp add: pos_defs)
  have g: "\<not> is_game_over tree_engine (queen_pos, [])" by (simp add: pos_defs)
  show ?thesis
    using c n g evaluate_board_bounds [of tree_engine "(mated_pos, [])" "(mated_pos, [])"]
      evaluate_board_bounds [of tree_engine "(queen_pos, [])" "(mated_pos, [])"]
    by simp
qed

text \<open>
  Claim C5. At a checkmate \<open>evaluate_board\<close> returns \<open>-1000\<close> when White is to move
  and \<open>1000\<close> when Black is to move, whatever pieces \<open>piece_at\<close> reports.
\<close>

theorem evaluate_board_checkmate:
  "is_checkmate R b \<Longrightarrow>
   evaluate_board (R\<lparr>piece_at := pieces\<rparr>) b = (if turn R b = WHITE then - 1000 else 1000)"
  by (simp add: evaluate_board_def WHITE_def)

text \<open>
  Claim C5 at the position where White is mated.
\<close>

theorem evaluate_board_checkmate_witness:
  "is_checkmate tree_engine (mated_pos, []) \<and> turn tree_engine (mated_pos, []) = WHITE
   \<and> evaluate_board tree_engine (mated_pos, []) = - 1000"
proof -
  have c: "is_checkmate tree_engine (mated_pos, [])" by (simp add: pos_defs)
  have t: "turn tree_engine (mated_pos, []) = WHITE" by (simp add: pos_defs)
  show ?thesis
    using c t evaluate_board_checkmate [OF c, of "piece_at tree_engine"] by simp
qed

text \<open>
  The stalemate test of \<open>evaluate_board\<close>: at a stalemate the result is 0, whatever
  pieces \<open>piece_at\<close> reports.
\<close>

lemma evaluate_board_stalemate:
  "is_stalemate R b \<Longrightarrow> \<not> is_checkmate R b \<Longrightarrow>
   evaluate_board (R\<lparr>piece_at := pieces\<rparr>) b = 0"
  by (simp add: evaluate_board_def)

lemma evaluate_board_stalemate_instance:
  "is_stalemate tree_engine (stalemated_pos, []) \<and> \<not> is_checkmate tree_engine (stalemated_pos, [])
   \<and> piece_at tree_engine (stalemated_pos, []) 10 = Some (mk_piece QUEEN BLACK)
   \<and> evaluate_board tree_engine (stalemated_pos, []) = 0"
proof -
  have s: "is_stalemate tree_engine (stalemated_pos, [])" by (simp add: pos_defs)
  have c: "\<not> is_checkmate tree_engine (stalemated_pos, [])" by (simp add: pos_defs)
  have p: "piece_at tree_engine (stalemated_pos, []) 10 = Some (mk_piece QUEEN BLACK)"
    by (simp add: pos_defs)
  show ?thesis
    using s c p evaluate_board_stalemate [OF s c, of "piece_at tree_engine"] by simp
qed

text \<open>
  Claim C6 fails on the program. The claim asks for 0 at every drawn terminal position.
  King and bishop against king is game over and neither a checkmate nor a stalemate, a
  draw by insufficient material, and \<open>evaluate_board\<close> returns the material count 3:
  only \<^verbatim>\<open>is_checkmate\<close> and \<^verbatim>\<open>is_stalemate\<close> are tested before the pieces are
  counted, although \<^verbatim>\<open>minimax\<close> stops at every board that is game over and
  \<^verbatim>\<open>play_game\<close> announces a draw at every end that is not a checkmate.
\<close>

theorem evaluate_board_insufficient_material:
  "is_game_over tree_engine (bishop_pos, []) \<and> \<not> is_checkmate tree_engine (bishop_pos, [])
   \<and> \<not> is_stalemate tree_engine (bishop_pos, [])
   \<and> evaluate_board tree_engine (bishop_pos, []) = 3"
  by (simp add: evaluate_board_def add_square_def SQUARES_def upt_rec pos_defs)

subsection \<open>Leaves of the search\<close>

lemma evaluate_board_search_fields:
  "evaluate_board (R\<lparr>legal_moves := moves, push := apply_move, pop := undo\<rparr>) b
   = evaluate_board R b"
proof -
  have "add_square (R\<lparr>legal_moves := moves, push := apply_move, pop := undo\<rparr>) b
        = add_square R b"
    by (intro ext) (simp add: add_square_def)
  then show ?thesis by (simp add: evaluate_board_def)
qed

text \<open>
  Claim C3. With depth 0, or on a board that is game over, \<open>minimax\<close> returns the
  evaluation of the board and no move, and leaves the board as it is, for all bounds
  and either side. The result is the same when \<open>legal_moves\<close>, \<open>push\<close> and \<open>pop\<close> are
  replaced by anything else: the call neither lists moves nor recurses.
\<close>

theorem minimax_depth0_or_game_over:
  "depth = 0 \<or> is_game_over R b \<Longrightarrow>
   minimax R b depth alpha beta is_maximizing = ((Fin (evaluate_board R b), None), b)
   \<and> minimax (R\<lparr>legal_moves := moves, push := apply_move, pop := undo\<rparr>) b depth alpha beta
         is_maximizing = ((Fin (evaluate_board R b), None), b)"
  by (simp add: minimax.simps evaluate_board_search_fields)

text \<open>
  Claim C3 at depth 0 on a position with two legal moves, and at depth 3 on a position
  that is game over with a legal move left.
\<close>

theorem minimax_depth0_or_game_over_witness:
  "legal_moves tree_engine (queen_pos, []) = [0, 1]
   \<and> minimax tree_engine (queen_pos, []) 0 (Fin 7) (Fin (- 7)) True
       = ((Fin (- 9), None), (queen_pos, []))
   \<and> legal_moves tree_engine (bishop_pos, []) = [0]
   \<and> is_game_over tree_engine (bishop_pos, [])
   \<and> minimax tree_engine (bishop_pos, []) 3 NegInf PosInf False
       = ((Fin 3, None), (bishop_pos, []))"
proof -
  have g: "is_game_over tree_engine (bishop_pos, [])" by (simp add: pos_defs)
  have e1: "evaluate_board tree_engine (queen_pos, []) = - 9"
    by (simp add: evaluate_board_def add_square_def SQUARES_def upt_rec pos_defs)
  have e2: "evaluate_board tree_engine (bishop_pos, []) = 3"
    by (simp add: evaluate_board_def add_square_def SQUARES_def upt_rec pos_defs)
  have l: "legal_moves tree_engine (queen_pos, []) = [0, 1]"
    "legal_moves tree_engine (bishop_pos, []) = [0]"
    by (simp_all add: pos_defs)
  show ?thesis
    using g l e1 e2
      minimax_depth0_or_game_over [of 0 tree_engine "(queen_pos, [])" "Fin 7" "Fin (- 7)" True]
      minimax_depth0_or_game_over [of 3 tree_engine "(bishop_pos, [])" NegInf PosInf False]
    by simp
qed

subsection \<open>The board after the search\<close>

text \<open>
  Claim C4. On a rules engine whose \<open>pop\<close> undoes \<open>push\<close>, the board after \<open>minimax\<close>
  is the board before it, for every depth, bounds and side; and for every legal move,
  applying it, searching below it and undoing it gives the board back, which is the
  state in which the loop tries its next move.
\<close>

theorem minimax_restores_board:
  assumes "reversible R"
  shows "snd (minimax R b depth alpha beta is_maximizing) = b
   \<and> (\<forall>move \<in> set (legal_moves R b).
        pop R (snd (minimax R (push R b move) d alpha' beta' mx)) = b)"
  using assms minimax_board [OF assms] by (simp add: reversibleD)

text \<open>
  Claim C4 on the game-tree engine, whose \<open>pop\<close> undoes \<open>push\<close>.
\<close>

theorem minimax_restores_board_witness:
  "reversible tree_engine
   \<and> snd (minimax tree_engine (queen_pos, []) 3 NegInf PosInf True) = (queen_pos, [])
   \<and> pop tree_engine (snd (minimax tree_engine (push tree_engine (queen_pos, []) 1) 2
        NegInf PosInf False)) = (queen_pos, [])"
proof -
  have m: "(1::nat) \<in> set (legal_moves tree_engine (queen_pos, []))" by (simp add: pos_defs)
  show ?thesis
    using tree_engine_reversible m
      minimax_restores_board [OF tree_engine_reversible,
        of "(queen_pos, [])" 3 NegInf PosInf True 2 NegInf PosInf False]
    by blast
qed

subsection \<open>No legal move at a position that is not game over\<close>

text \<open>
  Claim C7 as stated fails: on an engine that does not report the end of the game at a
  position without legal moves, \<open>minimax\<close> returns the pair \<open>(-inf, None)\<close> as an
  ordinary result. The function has no \<^verbatim>\<open>assert\<close> and no \<^verbatim>\<open>raise\<close>; both loops run
  zero times and the initial values are returned.
\<close>

theorem minimax_empty_moves_counterexample:
  "\<not> is_game_over broken_engine (stalemated_pos, [])
   \<and> legal_moves broken_engine (stalemated_pos, []) = []
   \<and> minimax broken_engine (stalemated_pos, []) 3 NegInf PosInf True
       = ((NegInf, None), (stalemated_pos, []))"
  by (simp add: minimax.simps pos_defs)

text \<open>
  Claim C7 as amended. At a positive depth, on a board that is not game over and has
  no legal move, \<open>minimax\<close> returns \<open>-inf\<close> for the maximizing side and \<open>inf\<close> for the
  minimizing side, with no move, and leaves the board as it is.
\<close>

theorem minimax_empty_moves:
  "\<not> is_game_over R b \<Longrightarrow> legal_moves R b = [] \<Longrightarrow> 0 < depth \<Longrightarrow>
   minimax R b depth alpha beta is_maximizing
     = ((if is_maximizing then NegInf else PosInf, None), b)"
  by (simp add: minimax.simps)

text \<open>
  Claim C7 as amended, for the minimizing side.
\<close>

theorem minimax_empty_moves_witness:
  "\<not> is_game_over broken_engine (stalemated_pos, [])
   \<and> legal_moves broken_engine (stalemated_pos, []) = []
   \<and> (0::nat) < 2
   \<and> minimax broken_engine (stalemated_pos, []) 2 (Fin 1) (Fin 4) False
       = ((PosInf, None), (stalemated_pos, []))"
proof -
  have g: "\<not> is_game_over broken_engine (stalemated_pos, [])" by (simp add: pos_defs)
  have l: "legal_moves broken_engine (stalemated_pos, []) = []" by (simp add: pos_defs)
  have d: "(0::nat) < 2" by simp
  show ?thesis
    using g l minimax_empty_moves [OF g l d, of "Fin 1" "Fin 4" False] by simp
qed

subsection \<open>Bounds given in the wrong order\<close>

text \<open>
  Claim C8 as stated fails: called with \<open>alpha = 5\<close> and \<open>beta = 1\<close>, \<open>minimax\<close> returns
  an ordinary result, the score 0 with the first legal move. The function never
  compares the two bounds on entry.
\<close>

theorem minimax_inverted_window_counterexample:
  "Fin 1 < Fin 5
   \<and> minimax tree_engine (queen_pos, []) 3 (Fin 5) (Fin 1) True
       = ((Fin 0, Some 0), (queen_pos, []))"
  by (simp add: minimax.simps max_loop.simps min_loop.simps evaluate_board_def pos_defs
      less_score_def)

text \<open>
  Claim C8 as amended. Called with \<open>alpha > beta\<close> at a positive depth on a board that
  is not game over, \<open>minimax\<close> searches below the first legal move only, with the same
  two bounds in the same order, leaves the loop at once and returns the score found
  there; the move is that first move, unless the score is the initial value of the
  running best. (At depth 0 or on a board that is game over, claim C3 gives the
  result.)
\<close>

theorem minimax_inverted_window:
  assumes "beta < alpha" and "\<not> is_game_over R b" and "legal_moves R b = move # rest"
  shows "minimax R b (Suc d) alpha beta is_maximizing =
     (case minimax R (push R b move) d alpha beta (\<not> is_maximizing) of
        ((eval_score, _), b') \<Rightarrow>
          ((eval_score,
            if (if is_maximizing then NegInf < eval_score else eval_score < PosInf)
            then Some move else None),
           pop R b'))"
proof -
  obtain e mv b' where r: "minimax R (push R b move) d alpha beta (\<not> is_maximizing) = ((e, mv), b')"
    by (metis prod.exhaust)
  have cut1: "beta \<le> max alpha e" using assms(1) by (auto simp add: le_max_iff_disj)
  have cut2: "min beta e \<le> alpha" using assms(1) by (auto simp add: min_le_iff_disj)
  have lo: "\<not> NegInf < e \<Longrightarrow> e = NegInf" by (rule not_NegInf_less)
  have hi: "\<not> e < PosInf \<Longrightarrow> e = PosInf" by (rule not_less_PosInf)
  show ?thesis
  proof (cases is_maximizing)
    case True
    then show ?thesis
      using assms(2,3) r cut1 lo
      by (auto simp add: minimax.simps [of R b] max_loop.simps)
  next
    case False
    then show ?thesis
      using assms(2,3) r cut2 hi
      by (auto simp add: minimax.simps [of R b] min_loop.simps)
  qed
qed

text \<open>
  Claim C8 as amended, for the minimizing side at depth 3.
\<close>

theorem minimax_inverted_window_witness:
  "Fin 1 < Fin 5 \<and> \<not> is_game_over tree_engine (queen_pos, [])
   \<and> legal_moves tree_engine (queen_pos, []) = [0, 1]
   \<and> minimax tree_engine (queen_pos, []) (Suc 2) (Fin 5) (Fin 1) False
       = ((Fin 0, Some 0), (queen_pos, []))"
proof -
  have w: "Fin 1 < Fin 5" by (simp add: less_score_def)
  have g: "\<not> is_game_over tree_engine (queen_pos, [])" by (simp add: pos_defs)
  have l: "legal_moves tree_engine (queen_pos, []) = [0, 1]" by (simp add: pos_defs)
  have c: "minimax tree_engine (push tree_engine (queen_pos, []) 0) 2 (Fin 5) (Fin 1) True
           = ((Fin 0, None), (stalemated_pos, [queen_pos]))"
    by (simp add: minimax.simps evaluate_board_def pos_defs)
  have p: "pop tree_engine (stalemated_pos, [queen_pos]) = (queen_pos, [])"
    by (simp add: tree_engine_def)
  show ?thesis
    using w g l minimax_inverted_window [OF w g l, of 2 False] c p
    by (simp add: less_score_def)
qed

subsection \<open>A move is returned wherever one exists\<close>

lemma max_loop_finds_move:
  assumes child: "\<And>b' al be. \<exists>n. fst (fst (minimax R b' d al be False)) = Fin n"
  shows "(\<exists>n m0. M = Fin n \<and> bm = Some m0 \<and> m0 \<in> S) \<or> (M = NegInf \<and> ms \<noteq> []) \<Longrightarrow>
         \<exists>n m'. fst (max_loop R d B ms b A M bm) = (Fin n, Some m') \<and> m' \<in> S \<union> set ms"
proof (induction ms arbitrary: b A M bm S)
  case Nil
  then show ?case by auto
next
  case (Cons m ms)
  obtain e mv b' where r: "minimax R (push R b m) d A B False = ((e, mv), b')"
    by (metis prod.exhaust)
  obtain k where e: "e = Fin k" using child [of "push R b m" A B] r by auto
  let ?M = "if e > M then e else M"
  let ?bm = "if e > M then Some m else bm"
  have st: "\<exists>n m0. ?M = Fin n \<and> ?bm = Some m0 \<and> m0 \<in> insert m S"
    using Cons.prems e by (auto simp add: less_score_def)
  show ?case
  proof (cases "B \<le> max A e")
    case True
    then show ?thesis using st r by (auto simp add: max_loop.simps)
  next
    case False
    have "\<exists>n m'. fst (max_loop R d B ms (pop R b') (max A e) ?M ?bm) = (Fin n, Some m')
            \<and> m' \<in> insert m S \<union> set ms"
      using st by (intro Cons.IH) blast
    then show ?thesis using False r by (auto simp add: max_loop.simps)
  qed
qed

lemma min_loop_finds_move:
  assumes child: "\<And>b' al be. \<exists>n. fst (fst (minimax R b' d al be True)) = Fin n"
  shows "(\<exists>n m0. M = Fin n \<and> bm = Some m0 \<and> m0 \<in> S) \<or> (M = PosInf \<and> ms \<noteq> []) \<Longrightarrow>
         \<exists>n m'. fst (min_loop R d A ms b B M bm) = (Fin n, Some m') \<and> m' \<in> S \<union> set ms"
proof (induction ms arbitrary: b B M bm S)
  case Nil
  then show ?case by auto
next
  case (Cons m ms)
  obtain e mv b' where r: "minimax R (push R b m) d A B True = ((e, mv), b')"
    by (metis prod.exhaust)
  obtain k where e: "e = Fin k" using child [of "push R b m" A B] r by auto
  let ?M = "if e < M then e else M"
  let ?bm = "if e < M then Some m else bm"
  have st: "\<exists>n m0. ?M = Fin n \<and> ?bm = Some m0 \<and> m0 \<in> insert m S"
    using Cons.prems e by (auto simp add: less_score_def)
  show ?case
  proof (cases "min B e \<le> A")
    case True
    then show ?thesis using st r by (auto simp add: min_loop.simps)
  next
    case False
    have "\<exists>n m'. fst (min_loop R d A ms (pop R b') (min B e) ?M ?bm) = (Fin n, Some m')
            \<and> m' \<in> insert m S \<union> set ms"
      using st by (intro Cons.IH) blast
    then show ?thesis using False r by (auto simp add: min_loop.simps)
  qed
qed

lemma minimax_finite_score:
  assumes moves: "moves_until_game_over R"
  shows "\<exists>n. fst (fst (minimax R b depth alpha beta mx)) = Fin n"
proof (induction depth arbitrary: b alpha beta mx)
  case 0
  show ?case by (simp add: minimax_leaf)
next
  case (Suc d)
  show ?case
  proof (cases "is_game_over R b")
    case True
    then show ?thesis by (simp add: minimax_leaf)
  next
    case False
    then have ne: "legal_moves R b \<noteq> []" using moves by (simp add: moves_until_game_over_def)
    have "\<exists>n m'. fst (max_loop R d beta (legal_moves R b) b alpha NegInf None) = (Fin n, Some m')
            \<and> m' \<in> {} \<union> set (legal_moves R b)"
      using ne Suc.IH by (intro max_loop_finds_move) simp_all
    moreover
    have "\<exists>n m'. fst (min_loop R d alpha (legal_moves R b) b beta PosInf None) = (Fin n, Some m')
            \<and> m' \<in> {} \<union> set (legal_moves R b)"
      using ne Suc.IH by (intro min_loop_finds_move) simp_all
    ultimately show ?thesis using False by (auto simp add: minimax_inner)
  qed
qed

text \<open>
  Claim C10. When every board that is not game over has a legal move, \<open>minimax\<close> at a
  positive depth on a board that is not game over returns a finite score and a move,
  and the move is one of the legal moves of that board; this holds for all bounds.
\<close>

theorem minimax_returns_move:
  assumes moves: "moves_until_game_over R"
    and depth: "0 < depth" and live: "\<not> is_game_over R b"
  shows "\<exists>n move. fst (minimax R b depth alpha beta is_maximizing) = (Fin n, Some move)
           \<and> move \<in> set (legal_moves R b)"
proof -
  obtain d where d: "depth = Suc d" using depth by (cases depth) simp_all
  have ne: "legal_moves R b \<noteq> []" using moves live by (simp add: moves_until_game_over_def)
  have "\<exists>n m'. fst (max_loop R d beta (legal_moves R b) b alpha NegInf None) = (Fin n, Some m')
          \<and> m' \<in> {} \<union> set (legal_moves R b)"
    using ne minimax_finite_score [OF moves] by (intro max_loop_finds_move) simp_all
  moreover
  have "\<exists>n m'. fst (min_loop R d alpha (legal_moves R b) b beta PosInf None) = (Fin n, Some m')
          \<and> m' \<in> {} \<union> set (legal_moves R b)"
    using ne minimax_finite_score [OF moves] by (intro min_loop_finds_move) simp_all
  ultimately show ?thesis using live unfolding d by (auto simp add: minimax_inner)
qed

lemma tree_engine_moves: "moves_until_game_over tree_engine"
  by (simp add: moves_until_game_over_def tree_engine_def split: prod.splits)

text \<open>
  Claim C10 on the game-tree engine, where a position without moves is game over.
\<close>

theorem minimax_returns_move_witness:
  "moves_until_game_over tree_engine
   \<and> (0::nat) < 3 \<and> \<not> is_game_over tree_engine (queen_pos, [])
   \<and> (\<exists>n move. fst (minimax tree_engine (queen_pos, []) 3 (Fin 5) (Fin 1) False)
         = (Fin n, Some move) \<and> move \<in> set (legal_moves tree_engine (queen_pos, [])))"
proof -
  have d: "(0::nat) < 3" by simp
  have g: "\<not> is_game_over tree_engine (queen_pos, [])" by (simp add: pos_defs)
  show ?thesis
    using tree_engine_moves d g
      minimax_returns_move [OF tree_engine_moves d g, of "Fin 5" "Fin 1" False]
    by blast
qed

subsection \<open>The flag the game loop passes\<close>

text \<open>
  Claim C1 fails on the program. In mode \<^verbatim>\<open>'hvm'\<close> the computer moves when Black is to
  move, and the game loop calls \<^verbatim>\<open>self.minimax(depth=3)\<close>, so \<^verbatim>\<open>is_maximizing\<close> is
  \<^verbatim>\<open>True\<close>. With Black to move and a mate in one on the board, the call returns the
  stalemating move with score 0; the search for the side to move returns the mate
  with score \<open>-1000\<close>.
\<close>

theorem play_game_search_flag:
  "is_ai_turn tree_engine ''hvm'' (queen_pos, [])
   \<and> turn tree_engine (queen_pos, []) = BLACK
   \<and> play_game_computer_move tree_engine hd ''hvm'' (queen_pos, []) = (Some 0, (queen_pos, []))
   \<and> minimax tree_engine (queen_pos, []) 3 NegInf PosInf True
       = ((Fin 0, Some 0), (queen_pos, []))
   \<and> minimax tree_engine (queen_pos, []) 3 NegInf PosInf
         (turn tree_engine (queen_pos, []) = WHITE)
       = ((Fin (- 1000), Some 1), (queen_pos, []))"
  by (simp add: is_ai_turn_def play_game_computer_move_def minimax.simps max_loop.simps min_loop.simps
      evaluate_board_def pos_defs less_score_def)

end
